theory Spec2Isabelle
  imports
    Main
    "HOL-Library.Sublist"
    "HOL-Library.Multiset"
    "HOL-Library.AList"
    "HOL-Library.Char_ord"
    "HOL-Library.List_Lexorder"
begin

section \<open>JavaScript values used by the program\<close>

text \<open>
  A document is the result of \<^verbatim>\<open>JSON.parse\<close>. An object is kept as the list of its own
  properties in \<^verbatim>\<open>for-in\<close> order (\<^verbatim>\<open>JSON.parse\<close> yields each key once). The payload of a
  number is never read by the program, only its \<^verbatim>\<open>typeof\<close>. A string is the list of its
  code units.
\<close>

datatype json =
    JNull
  | JBool bool
  | JNum int
  | JStr string
  | JArr "json list"
  | JObj "(string \<times> json) list"

fun typeof :: "json \<Rightarrow> string" where
  "typeof JNull = ''object''"
| "typeof (JBool b) = ''boolean''"
| "typeof (JNum n) = ''number''"
| "typeof (JStr s) = ''string''"
| "typeof (JArr xs) = ''object''"
| "typeof (JObj kvs) = ''object''"

fun isArray :: "json \<Rightarrow> bool" where
  "isArray (JArr xs) = True"
| "isArray v = False"

text \<open>\<^verbatim>\<open>!data\<close>: the values that convert to false.\<close>

fun falsy :: "json \<Rightarrow> bool" where
  "falsy JNull = True"
| "falsy (JBool b) = (\<not> b)"
| "falsy (JNum n) = (n = 0)"
| "falsy (JStr s) = (s = [])"
| "falsy v = False"

datatype error =
    InvalidDataObject    \<comment> \<open>\<^verbatim>\<open>Error('TagsFinder invalid data object')\<close>\<close>
  | ProcessWithoutData   \<comment> \<open>\<^verbatim>\<open>Error('TagsFinder process called without data set')\<close>\<close>
  | NotAFunction         \<comment> \<open>\<^verbatim>\<open>TypeError\<close>: a called value is not a function\<close>
  | CannotReadProperty   \<comment> \<open>\<^verbatim>\<open>TypeError\<close>: property read on \<^verbatim>\<open>undefined\<close>\<close>

subsection \<open>\<^verbatim>\<open>String.prototype.indexOf\<close>\<close>

text \<open>
  \<open>indexOfFrom s t i\<close> searches the rest \<open>s\<close> of a string, which starts at position \<open>i\<close>,
  for the first occurrence of \<open>t\<close>; the answer is \<open>-1\<close> when there is none.
\<close>

fun indexOfFrom :: "string \<Rightarrow> string \<Rightarrow> int \<Rightarrow> int" where
  "indexOfFrom [] t i = (if t = [] then i else - 1)"
| "indexOfFrom (c # s) t i = (if prefix t (c # s) then i else indexOfFrom s t (i + 1))"

definition indexOf :: "string \<Rightarrow> string \<Rightarrow> int" where
  "indexOf s t = indexOfFrom s t 0"

subsection \<open>Plain objects used as dictionaries\<close>

text \<open>
  \<^verbatim>\<open>this.cache\<close> and \<^verbatim>\<open>tmpResults\<close> are created by \<^verbatim>\<open>{}\<close>: their own properties hold
  numbers, and a read of a key that is not an own property falls through to
  \<^verbatim>\<open>Object.prototype\<close>. \<open>Builtin k\<close> is the member of \<^verbatim>\<open>Object.prototype\<close> named \<open>k\<close>.
\<close>

datatype cval = Num nat | Builtin string | Undefined

definition object_prototype :: "string list" where
  "object_prototype =
     [''constructor'', ''__defineGetter__'', ''__defineSetter__'', ''hasOwnProperty'',
      ''__lookupGetter__'', ''__lookupSetter__'', ''isPrototypeOf'', ''propertyIsEnumerable'',
      ''toString'', ''valueOf'', ''__proto__'', ''toLocaleString'']"

definition js_get :: "(string \<times> nat) list \<Rightarrow> string \<Rightarrow> cval" where
  "js_get obj key =
     (case map_of obj key of
        Some n \<Rightarrow> Num n
      | None \<Rightarrow> if key \<in> set object_prototype then Builtin key else Undefined)"

fun truthy :: "cval \<Rightarrow> bool" where
  "truthy (Num n) = (n \<noteq> 0)"
| "truthy (Builtin k) = True"
| "truthy Undefined = False"

text \<open>
  The text that a member of \<^verbatim>\<open>Object.prototype\<close> converts to when it is compared:
  \<^verbatim>\<open>__proto__\<close> is the prototype object itself, \<^verbatim>\<open>constructor\<close> is the function
  \<^verbatim>\<open>Object\<close>, every other member is a native function of its own name.
\<close>

definition builtin_text :: "string \<Rightarrow> string" where
  "builtin_text k =
     (if k = ''__proto__'' then ''[object Object]''
      else ''function '' @ (if k = ''constructor'' then ''Object'' else k)
             @ ''() { [native code] }'')"

text \<open>
  \<^verbatim>\<open>a < b\<close> on two counts: numbers compare as numbers, two texts compare by code units,
  and a text or \<^verbatim>\<open>undefined\<close> against a number converts to \<^verbatim>\<open>NaN\<close>, which is less than
  nothing.
\<close>

fun js_less :: "cval \<Rightarrow> cval \<Rightarrow> bool" where
  "js_less (Num a) (Num b) = (a < b)"
| "js_less (Builtin a) (Builtin b) = (builtin_text a < builtin_text b)"
| "js_less a b = False"

section \<open>\<^verbatim>\<open>tagsfinder.js\<close>\<close>

type_synonym counters = "(string \<times> nat) list"
type_synonym entry = "string \<times> cval"

record TagsFinder =
  cache :: counters
  data :: "json list option"

text \<open>The constructor: an empty cache, \<^verbatim>\<open>this.data\<close> not set.\<close>

definition new_TagsFinder :: TagsFinder where
  "new_TagsFinder = \<lparr>cache = [], data = None\<rparr>"

definition setData :: "TagsFinder \<Rightarrow> json \<Rightarrow> (error + unit) \<times> TagsFinder" where
  "setData this d =
     (if falsy d \<or> \<not> isArray d then (Inl InvalidDataObject, this)
      else (case d of
              JArr objs \<Rightarrow> (Inr (), this\<lparr>data := Some objs\<rparr>)
            | _ \<Rightarrow> (Inl InvalidDataObject, this)))"

text \<open>
  The loop over the tags on one string leaf. \<^verbatim>\<open>results[tag] += 1\<close> increments the counter
  stored under \<open>tag\<close>; \<open>process\<close> sets that counter to 0 for every tag it passes down
  (lemma \<open>useCache_keys\<close>), so the key is always present here.
\<close>

definition testLeaf :: "string list \<Rightarrow> string \<Rightarrow> counters \<Rightarrow> counters" where
  "testLeaf tags leaf results =
     fold (\<lambda>tag r. if indexOf leaf tag > - 1 then AList.map_entry tag Suc r else r)
       tags results"

text \<open>
  \<^verbatim>\<open>_processObject\<close>. \<open>processProperty\<close> is the body of the \<^verbatim>\<open>for-in\<close> loop for one
  property value; \<open>processFields\<close> and \<open>processElems\<close> are that loop over the properties
  of an object and over the indices of an array; \<open>processAll\<close> is a \<^verbatim>\<open>for-of\<close> loop
  that calls \<^verbatim>\<open>_processObject\<close> on each element.

  \<^verbatim>\<open>obj.hasOwnProperty(key)\<close> is evaluated first in every iteration. When the object
  has an own property of that name, its value (a JSON value) is what gets called, and the
  call throws. Arrays and strings have no such own property, and every key that
  \<^verbatim>\<open>for-in\<close> hands out is an own key, so the test is true otherwise.

  \<^verbatim>\<open>for-in\<close> over a string enumerates its indices, and each \<^verbatim>\<open>obj[key]\<close> is a string of
  one code unit, which takes the string branch of the body; over \<^verbatim>\<open>null\<close>, a number or a
  boolean it enumerates nothing.
\<close>

function (sequential) processObject :: "string list \<Rightarrow> json \<Rightarrow> counters \<Rightarrow> error + counters"
  and processProperty :: "string list \<Rightarrow> json \<Rightarrow> counters \<Rightarrow> error + counters"
  and processFields :: "string list \<Rightarrow> (string \<times> json) list \<Rightarrow> counters \<Rightarrow> error + counters"
  and processElems :: "string list \<Rightarrow> json list \<Rightarrow> counters \<Rightarrow> error + counters"
  and processAll :: "string list \<Rightarrow> json list \<Rightarrow> counters \<Rightarrow> error + counters"
where
  "processObject tags (JObj kvs) results =
     (if ''hasOwnProperty'' \<in> fst ` set kvs then Inl NotAFunction
      else processFields tags kvs results)"
| "processObject tags (JArr xs) results = processElems tags xs results"
| "processObject tags (JStr s) results =
     Inr (fold (\<lambda>c r. testLeaf tags [c] r) s results)"
| "processObject tags JNull results = Inr results"
| "processObject tags (JBool b) results = Inr results"
| "processObject tags (JNum n) results = Inr results"
| "processProperty tags v results =
     (if typeof v = ''object'' then processObject tags v results
      else if isArray v then
        (case v of JArr xs \<Rightarrow> processAll tags xs results | _ \<Rightarrow> Inr results)
      else if typeof v = ''string'' then
        (case v of JStr s \<Rightarrow> Inr (testLeaf tags s results) | _ \<Rightarrow> Inr results)
      else Inr results)"
| "processFields tags [] results = Inr results"
| "processFields tags ((key, v) # kvs) results =
     (case processProperty tags v results of
        Inl e \<Rightarrow> Inl e
      | Inr results' \<Rightarrow> processFields tags kvs results')"
| "processElems tags [] results = Inr results"
| "processElems tags (x # xs) results =
     (case processProperty tags x results of
        Inl e \<Rightarrow> Inl e
      | Inr results' \<Rightarrow> processElems tags xs results')"
| "processAll tags [] results = Inr results"
| "processAll tags (x # xs) results =
     (case processObject tags x results of
        Inl e \<Rightarrow> Inl e
      | Inr results' \<Rightarrow> processAll tags xs results')"
  by pat_completeness auto

termination
  by (relation "measure (\<lambda>x. case x of
      Inl (Inl (tags, v, r)) \<Rightarrow> 2 * size v
    | Inl (Inr (tags, v, r)) \<Rightarrow> 2 * size v + 1
    | Inr (Inl (tags, kvs, r)) \<Rightarrow> 2 * size_list (size_prod (\<lambda>k. 0) size) kvs + 1
    | Inr (Inr (Inl (tags, xs, r))) \<Rightarrow> 2 * size_list size xs + 1
    | Inr (Inr (Inr (tags, xs, r))) \<Rightarrow> 2 * size_list size xs + 1)")
    simp_all

text \<open>
  The first loop of \<^verbatim>\<open>process\<close>: a tag whose cache read is truthy is answered from the
  cache, every other tag is queued and its counter is set to 0.
\<close>

fun useCache ::
  "counters \<Rightarrow> string list \<Rightarrow> entry list \<Rightarrow> string list \<Rightarrow> counters
     \<Rightarrow> entry list \<times> string list \<times> counters" where
  "useCache c [] results tagsToProcess tmpResults = (results, tagsToProcess, tmpResults)"
| "useCache c (tag # tags) results tagsToProcess tmpResults =
     (if truthy (js_get c tag)
      then useCache c tags (results @ [(tag, js_get c tag)]) tagsToProcess tmpResults
      else useCache c tags results (tagsToProcess @ [tag]) (AList.update tag 0 tmpResults))"

text \<open>
  The third loop: \<^verbatim>\<open>this.cache[tag] = tmpResults[tag]\<close> and the push of the same value.
  A counter that is not there would read as \<^verbatim>\<open>undefined\<close>, and a cache entry holding
  \<^verbatim>\<open>undefined\<close> reads like no entry.
\<close>

fun cacheResults ::
  "string list \<Rightarrow> counters \<Rightarrow> counters \<Rightarrow> entry list \<Rightarrow> counters \<times> entry list" where
  "cacheResults [] tmpResults c results = (c, results)"
| "cacheResults (tag # tags) tmpResults c results =
     (case map_of tmpResults tag of
        Some n \<Rightarrow>
          cacheResults tags tmpResults (AList.update tag n c) (results @ [(tag, Num n)])
      | None \<Rightarrow>
          cacheResults tags tmpResults (AList.delete tag c)
            (results @ [(tag, js_get tmpResults tag)]))"

text \<open>
  The comparison function handed to \<^verbatim>\<open>sort\<close> returns a boolean, which \<^verbatim>\<open>sort\<close> converts
  to the number 1 or 0.
\<close>

definition comparefn :: "entry \<Rightarrow> entry \<Rightarrow> int" where
  "comparefn a b = (if js_less (snd a) (snd b) then 1 else 0)"

text \<open>
  \<^verbatim>\<open>Array.prototype.sort\<close> belongs to the JavaScript engine, not to the repository, so
  \<open>process\<close> takes it as the parameter \<open>srt\<close>.
\<close>

type_synonym sortfn = "(entry \<Rightarrow> entry \<Rightarrow> int) \<Rightarrow> entry list \<Rightarrow> entry list"

definition process ::
  "sortfn \<Rightarrow> TagsFinder \<Rightarrow> string list \<Rightarrow> (error + entry list) \<times> TagsFinder" where
  "process srt this tags =
     (case data this of
        None \<Rightarrow> (Inl ProcessWithoutData, this)
      | Some objs \<Rightarrow>
          (case useCache (cache this) tags [] [] [] of
             (results, tagsToProcess, tmpResults) \<Rightarrow>
               (case processAll tagsToProcess objs tmpResults of
                  Inl e \<Rightarrow> (Inl e, this)
                | Inr tmpResults' \<Rightarrow>
                    (case cacheResults tagsToProcess tmpResults' (cache this) results of
                       (c', results') \<Rightarrow>
                         (Inr (srt comparefn results'), this\<lparr>cache := c'\<rparr>)))))"

text \<open>
  The traversal of a corpus throws or not whatever the tags are
  (lemma \<open>traversal_succeeds\<close>); \<open>traversable\<close> runs it with no tag at all.
\<close>

definition traversable :: "json list \<Rightarrow> bool" where
  "traversable objs = (processAll [] objs [] = Inr [])"

subsection \<open>Two sorts an engine may provide\<close>

text \<open>
  ECMAScript fixes the outcome of \<^verbatim>\<open>sort\<close> only for a consistent comparison function;
  for any other one the order is left to the implementation. Both sorts below are
  insertion sorts that keep the sorted part in front and walk each new element towards
  the front; \<open>shift tmp element\<close> decides whether \<open>tmp\<close> moves one place back to let
  \<open>element\<close> pass. They give the same result for every consistent comparison function
  and differ only in how they consult it:
  \<^item> \<open>sort_testing_gt\<close> moves \<open>tmp\<close> when \<^verbatim>\<open>comparefn(tmp, element) > 0\<close>
    (the insertion sort V8 used for short arrays up to Node 10);
  \<^item> \<open>sort_testing_lt\<close> moves \<open>tmp\<close> when \<^verbatim>\<open>comparefn(element, tmp) < 0\<close>
    (the test V8 makes since Node 11).
  The sorted part is kept in reverse, its last element first.
\<close>

fun insert_back :: "('a \<Rightarrow> 'a \<Rightarrow> bool) \<Rightarrow> 'a \<Rightarrow> 'a list \<Rightarrow> 'a list" where
  "insert_back shift element [] = [element]"
| "insert_back shift element (tmp # rest) =
     (if shift tmp element then tmp # insert_back shift element rest
      else element # tmp # rest)"

definition insertion_sort :: "('a \<Rightarrow> 'a \<Rightarrow> bool) \<Rightarrow> 'a list \<Rightarrow> 'a list" where
  "insertion_sort shift xs = rev (fold (insert_back shift) xs [])"

definition sort_testing_gt :: "('a \<Rightarrow> 'a \<Rightarrow> int) \<Rightarrow> 'a list \<Rightarrow> 'a list" where
  "sort_testing_gt cmp = insertion_sort (\<lambda>tmp element. cmp tmp element > 0)"

definition sort_testing_lt :: "('a \<Rightarrow> 'a \<Rightarrow> int) \<Rightarrow> 'a list \<Rightarrow> 'a list" where
  "sort_testing_lt cmp = insertion_sort (\<lambda>tmp element. cmp element tmp < 0)"

text \<open>What every \<^verbatim>\<open>sort\<close> does, whatever the comparison function: it permutes the array.\<close>

definition permuting :: "sortfn \<Rightarrow> bool" where
  "permuting srt = (\<forall>cmp xs. mset (srt cmp xs) = mset xs)"

section \<open>\<^verbatim>\<open>dataloader.js\<close>\<close>

text \<open>
  The loader is driven by callbacks that the event loop runs one at a time, so each
  callback is a function on the loader's state, and a run of the loader is the list of
  callbacks in the order in which the event loop ran them. A callback returns the events
  it emitted to outside listeners and the requests it made to the runtime.

  Besides the fields of the object, the state holds the timers that are armed:
  \<^verbatim>\<open>setTimeout\<close> returns a fresh handle and arms it, \<^verbatim>\<open>clearTimeout\<close> disarms the handle
  it is given, and an armed timer fires at most once.

  The listeners of \<^verbatim>\<open>ready\<close>, \<^verbatim>\<open>fatal\<close> and \<^verbatim>\<open>error\<close> are outside the loader: they are
  taken to return normally and not to call the loader while it emits. \<^verbatim>\<open>ready\<close> hands
  out the array \<^verbatim>\<open>this.cache\<close> itself; a signal of the model carries its contents at
  that moment.
\<close>

datatype fatal = TimeoutReached | UnableToLoadFiles | NoFilesFound
datatype failure = ErrorReading string | ErrorParsing string

datatype signal =
    Ready "json list"   \<comment> \<open>\<^verbatim>\<open>emit('ready', this.cache)\<close>\<close>
  | Fatal fatal         \<comment> \<open>\<^verbatim>\<open>emit('fatal', message)\<close>\<close>
  | Failed failure      \<comment> \<open>\<^verbatim>\<open>emit('error', message)\<close>\<close>

datatype request =
    Readdir             \<comment> \<open>\<^verbatim>\<open>fs.readdir\<close>\<close>
  | ReadFile string     \<comment> \<open>\<^verbatim>\<open>fs.readFile\<close>, from a task scheduled by \<^verbatim>\<open>setTimeout(..., 0)\<close>\<close>

record DataLoader =
  fileCache :: "json list"       \<comment> \<open>\<^verbatim>\<open>this.cache\<close>\<close>
  cacheReady :: bool
  filesToProcessCount :: nat
  filesProcessedCount :: nat
  safety :: "nat option"          \<comment> \<open>the handle kept in \<^verbatim>\<open>this.safety\<close>\<close>
  armed :: "nat list"             \<comment> \<open>the timers that are armed\<close>
  nextHandle :: nat               \<comment> \<open>the next fresh timer handle\<close>

definition new_DataLoader :: DataLoader where
  "new_DataLoader =
     \<lparr>fileCache = [], cacheReady = False, filesToProcessCount = 0,
      filesProcessedCount = 0, safety = None, armed = [], nextHandle = 0\<rparr>"

definition clearTimeout :: "nat option \<Rightarrow> DataLoader \<Rightarrow> DataLoader" where
  "clearTimeout h self =
     (case h of None \<Rightarrow> self | Some i \<Rightarrow> self\<lparr>armed := removeAll i (armed self)\<rparr>)"

text \<open>The listener of \<^verbatim>\<open>'fileprocessed'\<close> that the constructor installs.\<close>

definition fileprocessed :: "bool \<Rightarrow> json \<Rightarrow> DataLoader \<Rightarrow> signal list \<times> DataLoader" where
  "fileprocessed isSuccess object self =
     (let s1 = (if isSuccess then self\<lparr>fileCache := fileCache self @ [object]\<rparr> else self);
          s2 = s1\<lparr>filesProcessedCount := filesProcessedCount s1 + 1\<rparr>
      in if filesToProcessCount s2 = filesProcessedCount s2
         then ([Ready (fileCache s2)], (clearTimeout (safety s2) s2)\<lparr>cacheReady := True\<rparr>)
         else ([], s2))"

definition loadFiles :: "DataLoader \<Rightarrow> signal list \<times> request list \<times> DataLoader" where
  "loadFiles self =
     (if cacheReady self then ([Ready (fileCache self)], [], self)
      else ([], [Readdir],
            self\<lparr>safety := Some (nextHandle self),
                 armed := armed self @ [nextHandle self],
                 nextHandle := nextHandle self + 1\<rparr>))"

text \<open>The callback of the safety timer.\<close>

definition safetyTimeout :: "DataLoader \<Rightarrow> signal list \<times> DataLoader" where
  "safetyTimeout self = ([Fatal TimeoutReached], self)"

text \<open>
  The callback of \<^verbatim>\<open>fs.readdir\<close>. Neither \<^verbatim>\<open>emit('fatal', ...)\<close> returns, so with no
  listing the read of \<^verbatim>\<open>files.length\<close> throws after both were emitted.
\<close>

definition readdirDone ::
  "string option \<Rightarrow> string list option \<Rightarrow> DataLoader
     \<Rightarrow> signal list \<times> request list \<times> error option \<times> DataLoader" where
  "readdirDone err files self =
     (let sigs = (if err \<noteq> None then [Fatal UnableToLoadFiles] else [])
                 @ (if (case files of None \<Rightarrow> True | Some fs \<Rightarrow> length fs < 1)
                    then [Fatal NoFilesFound] else [])
      in case files of
           None \<Rightarrow> (sigs, [], Some CannotReadProperty, self)
         | Some fs \<Rightarrow>
             (sigs, map ReadFile fs, None, self\<lparr>filesToProcessCount := length fs\<rparr>))"

text \<open>The callback of \<^verbatim>\<open>fs.readFile\<close> for one file, with what reading and parsing gave.\<close>

datatype outcome = ReadError | ParseError | Parsed json

definition readFileDone :: "string \<Rightarrow> outcome \<Rightarrow> DataLoader \<Rightarrow> signal list \<times> DataLoader" where
  "readFileDone filePath out self =
     (case out of
        ReadError \<Rightarrow>
          (case fileprocessed False JNull self of
             (sigs, s) \<Rightarrow> (Failed (ErrorReading filePath) # sigs, s))
      | Parsed obj \<Rightarrow> fileprocessed True obj self
      | ParseError \<Rightarrow>
          (case fileprocessed False JNull self of
             (sigs, s) \<Rightarrow> (Failed (ErrorParsing filePath) # sigs, s)))"

datatype event =
    LoadFiles
  | TimerFires nat
  | ReaddirDone "string option" "string list option"
  | ReadFileDone string outcome

text \<open>One turn of the event loop. A timer that is not armed does not fire.\<close>

fun step :: "event \<Rightarrow> DataLoader \<Rightarrow> signal list \<times> request list \<times> error option \<times> DataLoader" where
  "step LoadFiles self =
     (case loadFiles self of (sigs, reqs, s) \<Rightarrow> (sigs, reqs, None, s))"
| "step (TimerFires i) self =
     (if i \<in> set (armed self)
      then (case safetyTimeout (self\<lparr>armed := removeAll i (armed self)\<rparr>) of
              (sigs, s) \<Rightarrow> (sigs, [], None, s))
      else ([], [], None, self))"
| "step (ReaddirDone err files) self = readdirDone err files self"
| "step (ReadFileDone filePath out) self =
     (case readFileDone filePath out self of (sigs, s) \<Rightarrow> (sigs, [], None, s))"

text \<open>
  A run: the events emitted and the requests made so far, and the final state. An
  exception that escapes a callback ends the run.
\<close>

fun run :: "event list \<Rightarrow> DataLoader \<Rightarrow> signal list \<times> request list \<times> DataLoader" where
  "run [] self = ([], [], self)"
| "run (ev # evs) self =
     (case step ev self of
        (sigs, reqs, Some e, s) \<Rightarrow> (sigs, reqs, s)
      | (sigs, reqs, None, s) \<Rightarrow>
          (case run evs s of (sigs', reqs', s') \<Rightarrow> (sigs @ sigs', reqs @ reqs', s')))"

section \<open>The string leaves of a corpus\<close>

text \<open>
  The strings that the traversal tests, written down on their own: \<open>leaves v\<close> are the
  strings found at \<open>v\<close> or below it, through arrays and objects. A document that is
  itself a string is not tested as a whole but character by character, so for a document
  the leaves are \<open>documentLeaves\<close>.
\<close>

fun leaves :: "json \<Rightarrow> string list"
  and leavesOfElems :: "json list \<Rightarrow> string list"
  and leavesOfFields :: "(string \<times> json) list \<Rightarrow> string list"
where
  "leaves (JStr s) = [s]"
| "leaves (JArr xs) = leavesOfElems xs"
| "leaves (JObj kvs) = leavesOfFields kvs"
| "leaves JNull = []"
| "leaves (JBool b) = []"
| "leaves (JNum n) = []"
| "leavesOfElems [] = []"
| "leavesOfElems (x # xs) = leaves x @ leavesOfElems xs"
| "leavesOfFields [] = []"
| "leavesOfFields ((key, v) # kvs) = leaves v @ leavesOfFields kvs"

fun documentLeaves :: "json \<Rightarrow> string list" where
  "documentLeaves (JStr s) = map (\<lambda>c. [c]) s"
| "documentLeaves v = leaves v"

section \<open>Calls and example inputs\<close>

text \<open>A history of calls on one engine, for statements about what happened before.\<close>

datatype call = SetData json | Process "string list"

fun perform :: "sortfn \<Rightarrow> call \<Rightarrow> TagsFinder \<Rightarrow> TagsFinder" where
  "perform srt (SetData d) this = snd (setData this d)"
| "perform srt (Process tags) this = snd (process srt this tags)"

text \<open>
  The corpus \<^verbatim>\<open>[{"tags":["red apple","blue"]}, {"nested":{"x":["green","redwood"]}}]\<close>.
\<close>

definition example_corpus :: "json list" where
  "example_corpus =
     [JObj [(''tags'', JArr [JStr ''red apple'', JStr ''blue''])],
      JObj [(''nested'', JObj [(''x'', JArr [JStr ''green'', JStr ''redwood''])])]]"

definition example_engine :: TagsFinder where
  "example_engine = snd (setData new_TagsFinder (JArr example_corpus))"

text \<open>The corpus \<^verbatim>\<open>[{"a":"x z"}, {"b":"x"}]\<close>: \<^verbatim>\<open>x\<close> twice, \<^verbatim>\<open>z\<close> once, \<^verbatim>\<open>y\<close> nowhere.\<close>

definition small_corpus :: "json list" where
  "small_corpus = [JObj [(''a'', JStr ''x z'')], JObj [(''b'', JStr ''x'')]]"

definition small_engine :: TagsFinder where
  "small_engine = snd (setData new_TagsFinder (JArr small_corpus))"

text \<open>
  A corpus with leaves at several depths: \<^verbatim>\<open>[{"k":["banana","an"],"m":{"n":"x"}}, ["can",1]]\<close>.
\<close>

definition leafy_corpus :: "json list" where
  "leafy_corpus =
     [JObj [(''k'', JArr [JStr ''banana'', JStr ''an'']), (''m'', JObj [(''n'', JStr ''x'')])],
      JArr [JStr ''can'', JNum 1]]"

text \<open>A corpus whose second document is a string: \<^verbatim>\<open>[{"k":"ab"}, "abab", ["a"]]\<close>.\<close>

definition mixed_corpus :: "json list" where
  "mixed_corpus = [JObj [(''k'', JStr ''ab'')], JStr ''abab'', JArr [JStr ''a'']]"

text \<open>A loader that has listed one file and waits for it, its safety timer armed.\<close>

definition waiting_loader :: DataLoader where
  "waiting_loader =
     \<lparr>fileCache = [], cacheReady = False, filesToProcessCount = 1,
      filesProcessedCount = 0, safety = Some 0, armed = [0], nextHandle = 1\<rparr>"

section \<open>Properties of the model\<close>

lemmas eval_simps = process_def setData_def new_TagsFinder_def js_get_def object_prototype_def
  testLeaf_def indexOf_def

lemmas loader_simps = new_DataLoader_def loadFiles_def readdirDone_def readFileDone_def
  fileprocessed_def safetyTimeout_def clearTimeout_def Let_def

subsection \<open>Substring search\<close>

lemma indexOfFrom_found: "0 \<le> i \<Longrightarrow> (indexOfFrom s t i > - 1) = sublist t s"
proof (induction s arbitrary: i)
  case Nil
  then show ?case by simp
next
  case (Cons c s)
  have "sublist t (c # s) = (prefix t (c # s) \<or> sublist t s)"
    by (rule sublist_Cons_right)
  with Cons show ?case by simp
qed

lemma indexOf_found: "(indexOf s t > - 1) = sublist t s"
  by (simp add: indexOf_def indexOfFrom_found)

lemma sublist_single: "sublist t [d] = (t = [] \<or> t = [d])"
  by (cases t) (auto simp: sublist_Cons_right)

subsection \<open>The counters of one leaf\<close>

lemma map_fst_map_entry: "map fst (AList.map_entry k f xs) = map fst xs"
  by (induction xs) auto

lemma map_fst_testLeaf: "map fst (testLeaf tags leaf r) = map fst r"
  unfolding testLeaf_def
  by (induction tags arbitrary: r) (auto simp: map_fst_map_entry)

lemma map_of_testLeaf:
  "distinct tags \<Longrightarrow>
   map_of (testLeaf tags leaf r) t =
     (if t \<in> set tags \<and> sublist t leaf then map_option Suc (map_of r t) else map_of r t)"
  unfolding testLeaf_def
proof (induction tags arbitrary: r)
  case Nil
  then show ?case by simp
next
  case (Cons a tags)
  then show ?case
    by (auto simp: indexOf_found map_of_map_entry split: option.splits)
qed

text \<open>The string branch of the loop body, for one leaf.\<close>

lemma string_branch_adds_one:
  assumes "distinct tags" and "tag \<in> set tags" and "map_of results tag = Some n"
  shows "\<exists>results'. processProperty tags (JStr leaf) results = Inr results'
           \<and> map_of results' tag
               = Some (if \<exists>before after. leaf = before @ tag @ after then n + 1 else n)"
proof -
  have "map_of (testLeaf tags leaf results) tag
          = Some (if sublist tag leaf then n + 1 else n)"
    using assms by (simp add: map_of_testLeaf)
  then show ?thesis by (simp add: sublist_def)
qed

lemma map_fst_chars: "map fst (fold (\<lambda>c r. testLeaf tags [c] r) s r) = map fst r"
  by (induction s arbitrary: r) (simp_all add: map_fst_testLeaf)

lemma chars_fold:
  assumes "distinct tags" and "tag \<in> set tags"
  shows "map_of r tag = Some n \<Longrightarrow>
     map_of (fold (\<lambda>c r. testLeaf tags [c] r) doc r) tag
       = Some (n + (case tag of [] \<Rightarrow> length doc | [c] \<Rightarrow> count_list doc c
                    | c # d # rest \<Rightarrow> 0))"
proof (induction doc arbitrary: r n)
  case Nil
  then show ?case by (simp split: list.splits)
next
  case (Cons d doc)
  have "map_of (testLeaf tags [d] r) tag = Some (if tag = [] \<or> tag = [d] then Suc n else n)"
    using assms Cons.prems by (simp add: map_of_testLeaf sublist_single)
  from Cons.IH [OF this] show ?case
    by (auto split: list.splits)
qed

lemma processElems_chars:
  "processElems tags (map (\<lambda>c. JStr [c]) doc) r = Inr (fold (\<lambda>c r. testLeaf tags [c] r) doc r)"
  by (induction doc arbitrary: r) simp_all

text \<open>\<^verbatim>\<open>_processObject\<close> on a string, on given counters.\<close>

lemma string_document_counters:
  assumes "distinct tags" and "tag \<in> set tags" and "map_of results tag = Some n"
  shows "\<exists>results'. processObject tags (JStr doc) results = Inr results'
           \<and> processElems tags (map (\<lambda>c. JStr [c]) doc) results = Inr results'
           \<and> map_of results' tag
               = Some (n + (case tag of [] \<Rightarrow> length doc | [c] \<Rightarrow> count_list doc c
                            | c # d # rest \<Rightarrow> 0))"
  using chars_fold [OF assms, of doc] by (simp add: processElems_chars)

subsection \<open>The traversal\<close>

text \<open>The traversal never adds or removes a counter.\<close>

lemma keys_kept:
  shows "processObject tags v r = Inr r' \<Longrightarrow> map fst r' = map fst r"
    and "processProperty tags v r = Inr r' \<Longrightarrow> map fst r' = map fst r"
    and "processFields tags kvs r = Inr r' \<Longrightarrow> map fst r' = map fst r"
    and "processElems tags xs r = Inr r' \<Longrightarrow> map fst r' = map fst r"
    and "processAll tags xs r = Inr r' \<Longrightarrow> map fst r' = map fst r"
proof (induction tags v r and tags v r and tags kvs r and tags xs r and tags xs r
    arbitrary: r' and r' and r' and r' and r'
    rule: processObject_processProperty_processFields_processElems_processAll.induct)
  case (1 tags kvs results)
  then show ?case by (simp split: if_splits)
next
  case (2 tags xs results)
  then show ?case by simp
next
  case (3 tags s results)
  then show ?case by (auto simp: map_fst_chars)
next
  case (7 tags v results)
  then show ?case
    by (cases v) (auto simp: map_fst_testLeaf)
next
  case (9 tags key v kvs results)
  then show ?case by (auto split: sum.splits)
next
  case (11 tags x xs results)
  then show ?case by (auto split: sum.splits)
next
  case (13 tags x xs results)
  then show ?case by (auto split: sum.splits)
qed simp_all

lemma keys_Nil:
  "processProperty tags v [] = Inr r' \<Longrightarrow> r' = []"
  "processObject tags v [] = Inr r' \<Longrightarrow> r' = []"
  using keys_kept(1,2) [of tags v "[]" r'] by simp_all

text \<open>Whether the traversal throws depends on the corpus alone.\<close>

lemma traversal_succeeds:
  shows "processObject [] v [] = Inr [] \<Longrightarrow> \<exists>r'. processObject tags v r = Inr r'"
    and "processProperty [] v [] = Inr [] \<Longrightarrow> \<exists>r'. processProperty tags v r = Inr r'"
    and "processFields [] kvs [] = Inr [] \<Longrightarrow> \<exists>r'. processFields tags kvs r = Inr r'"
    and "processElems [] xs [] = Inr [] \<Longrightarrow> \<exists>r'. processElems tags xs r = Inr r'"
    and "processAll [] xs [] = Inr [] \<Longrightarrow> \<exists>r'. processAll tags xs r = Inr r'"
proof (induction tags v r and tags v r and tags kvs r and tags xs r and tags xs r
    rule: processObject_processProperty_processFields_processElems_processAll.induct)
  case (1 tags kvs results)
  then show ?case by (simp split: if_splits)
next
  case (7 tags v results)
  then show ?case by (cases v) auto
next
  case (9 tags key v kvs results)
  from "9.prems" obtain r0 where a: "processProperty [] v [] = Inr r0"
    and b: "processFields [] kvs r0 = Inr []"
    by (auto split: sum.splits simp del: processProperty.simps)
  from a have r0: "r0 = []" by (rule keys_Nil)
  from "9.IH"(1) a r0 obtain r1 where c: "processProperty tags v results = Inr r1" by blast
  from "9.IH"(2) [OF c] b r0 obtain r2 where "processFields tags kvs r1 = Inr r2" by blast
  with c show ?case by (simp del: processProperty.simps)
next
  case (11 tags x xs results)
  from "11.prems" obtain r0 where a: "processProperty [] x [] = Inr r0"
    and b: "processElems [] xs r0 = Inr []"
    by (auto split: sum.splits simp del: processProperty.simps)
  from a have r0: "r0 = []" by (rule keys_Nil)
  from "11.IH"(1) a r0 obtain r1 where c: "processProperty tags x results = Inr r1" by blast
  from "11.IH"(2) [OF c] b r0 obtain r2 where "processElems tags xs r1 = Inr r2" by blast
  with c show ?case by (simp del: processProperty.simps)
next
  case (13 tags x xs results)
  from "13.prems" obtain r0 where a: "processObject [] x [] = Inr r0"
    and b: "processAll [] xs r0 = Inr []"
    by (auto split: sum.splits)
  from a have r0: "r0 = []" by (rule keys_Nil)
  from "13.IH"(1) a r0 obtain r1 where c: "processObject tags x results = Inr r1" by blast
  from "13.IH"(2) [OF c] b r0 obtain r2 where "processAll tags xs r1 = Inr r2" by blast
  with c show ?case by simp
qed simp_all

text \<open>The counter of a tag grows by the number of visited leaves that contain the tag.\<close>

lemma testLeaf_count:
  "distinct tags \<Longrightarrow> tag \<in> set tags \<Longrightarrow> map_of r tag = Some n \<Longrightarrow>
   map_of (testLeaf tags leaf r) tag = Some (n + length (filter (sublist tag) [leaf]))"
  by (simp add: map_of_testLeaf)

lemma chars_count:
  assumes "distinct tags" and "tag \<in> set tags"
  shows "map_of r tag = Some n \<Longrightarrow>
     map_of (fold (\<lambda>c r. testLeaf tags [c] r) s r) tag
       = Some (n + length (filter (sublist tag) (map (\<lambda>c. [c]) s)))"
proof (induction s arbitrary: r n)
  case Nil
  then show ?case by simp
next
  case (Cons d s)
  have "map_of (testLeaf tags [d] r) tag = Some (n + length (filter (sublist tag) [[d]]))"
    using assms Cons.prems by (rule testLeaf_count)
  from Cons.IH [OF this] show ?case by simp
qed

lemma traversal_counts:
  shows "processObject tags v r = Inr r' \<Longrightarrow> distinct tags \<and> tag \<in> set tags \<Longrightarrow>
           map_of r tag = Some n \<Longrightarrow>
           map_of r' tag = Some (n + length (filter (sublist tag) (documentLeaves v)))"
    and "processProperty tags v r = Inr r' \<Longrightarrow> distinct tags \<and> tag \<in> set tags \<Longrightarrow>
           map_of r tag = Some n \<Longrightarrow>
           map_of r' tag = Some (n + length (filter (sublist tag) (leaves v)))"
    and "processFields tags kvs r = Inr r' \<Longrightarrow> distinct tags \<and> tag \<in> set tags \<Longrightarrow>
           map_of r tag = Some n \<Longrightarrow>
           map_of r' tag = Some (n + length (filter (sublist tag) (leavesOfFields kvs)))"
    and "processElems tags xs r = Inr r' \<Longrightarrow> distinct tags \<and> tag \<in> set tags \<Longrightarrow>
           map_of r tag = Some n \<Longrightarrow>
           map_of r' tag = Some (n + length (filter (sublist tag) (leavesOfElems xs)))"
    and "processAll tags xs r = Inr r' \<Longrightarrow> distinct tags \<and> tag \<in> set tags \<Longrightarrow>
           map_of r tag = Some n \<Longrightarrow>
           map_of r' tag
             = Some (n + length (filter (sublist tag) (concat (map documentLeaves xs))))"
proof (induction tags v r and tags v r and tags kvs r and tags xs r and tags xs r
    arbitrary: r' n and r' n and r' n and r' n and r' n
    rule: processObject_processProperty_processFields_processElems_processAll.induct)
  case (1 tags kvs results)
  then show ?case by (simp split: if_splits)
next
  case (2 tags xs results)
  then show ?case by simp
next
  case (3 tags s results)
  then show ?case using chars_count [of tags tag results n s] by auto
next
  case (7 tags v results)
  show ?case
  proof (cases v)
    case (JStr s)
    with "7.prems" testLeaf_count [of tags tag results n s] show ?thesis by auto
  next
    case (JArr xs)
    with "7.prems" "7.IH"(1) [of r' n] show ?thesis by simp
  next
    case (JObj kvs)
    with "7.prems" "7.IH"(1) [of r' n] show ?thesis by simp
  qed (use "7.prems" in auto)
next
  case (9 tags key v kvs results)
  from "9.prems"(1) obtain r1 where a: "processProperty tags v results = Inr r1"
    and b: "processFields tags kvs r1 = Inr r'"
    by (auto split: sum.splits simp del: processProperty.simps)
  from "9.IH"(1) [OF a "9.prems"(2,3)] "9.IH"(2) [OF a b "9.prems"(2)] show ?case by simp
next
  case (11 tags x xs results)
  from "11.prems"(1) obtain r1 where a: "processProperty tags x results = Inr r1"
    and b: "processElems tags xs r1 = Inr r'"
    by (auto split: sum.splits simp del: processProperty.simps)
  from "11.IH"(1) [OF a "11.prems"(2,3)] "11.IH"(2) [OF a b "11.prems"(2)] show ?case by simp
next
  case (13 tags x xs results)
  from "13.prems"(1) obtain r1 where a: "processObject tags x results = Inr r1"
    and b: "processAll tags xs r1 = Inr r'"
    by (auto split: sum.splits)
  from "13.IH"(1) [OF a "13.prems"(2,3)] "13.IH"(2) [OF a b "13.prems"(2)] show ?case by simp
qed simp_all

subsection \<open>The sorts\<close>

lemma mset_insert_back: "mset (insert_back shift x ys) = add_mset x (mset ys)"
  by (induction ys) auto

lemma mset_fold_insert_back: "mset (fold (insert_back shift) xs acc) = mset xs + mset acc"
  by (induction xs arbitrary: acc) (auto simp: mset_insert_back)

lemma mset_insertion_sort: "mset (insertion_sort shift xs) = mset xs"
  by (simp add: insertion_sort_def mset_fold_insert_back)

lemma permuting_sort_testing_gt: "permuting sort_testing_gt"
  by (simp add: permuting_def sort_testing_gt_def mset_insertion_sort)

lemma permuting_sort_testing_lt: "permuting sort_testing_lt"
  by (simp add: permuting_def sort_testing_lt_def mset_insertion_sort)

lemma permuting_single: "permuting srt \<Longrightarrow> srt cmp [x] = [x]"
proof -
  assume "permuting srt"
  then have "mset (srt cmp [x]) = {#x#}" by (simp add: permuting_def)
  then show ?thesis by simp
qed

lemma permuting_set: "permuting srt \<Longrightarrow> set (srt cmp xs) = set xs"
  by (metis permuting_def set_mset_mset)

text \<open>
  \<open>comparefn\<close> is never negative, so a sort that only asks whether it is negative moves
  nothing.
\<close>

lemma comparefn_not_negative: "\<not> comparefn a b < 0"
  by (simp add: comparefn_def)

lemma insert_back_never: "(\<And>tmp. \<not> shift tmp x) \<Longrightarrow> insert_back shift x ys = x # ys"
  by (cases ys) simp_all

lemma fold_insert_back_never:
  "(\<And>tmp x. \<not> shift tmp x) \<Longrightarrow> fold (insert_back shift) xs acc = rev xs @ acc"
  by (induction xs arbitrary: acc) (simp_all add: insert_back_never)

lemma sort_testing_lt_comparefn: "sort_testing_lt comparefn xs = xs"
  by (simp add: sort_testing_lt_def insertion_sort_def fold_insert_back_never
      comparefn_not_negative)

text \<open>
  On entries that all hold numbers, the sort that tests \<^verbatim>\<open>> 0\<close> returns them in descending
  order of count.
\<close>

lemma set_insert_back: "set (insert_back shift x ys) = insert x (set ys)"
  by (induction ys) auto

lemma insert_back_ascending:
  assumes "\<forall>e \<in> set (x # acc). \<exists>n. snd e = Num n"
    and "sorted_wrt (\<lambda>a b. \<not> js_less (snd b) (snd a)) acc"
  shows "sorted_wrt (\<lambda>a b. \<not> js_less (snd b) (snd a))
           (insert_back (\<lambda>tmp element. comparefn tmp element > 0) x acc)"
  using assms
proof (induction acc)
  case Nil
  then show ?case by simp
next
  case (Cons tmp rest)
  from Cons.prems(1) obtain n m where x: "snd x = Num n" and tmp: "snd tmp = Num m" by auto
  show ?case
  proof (cases "m < n")
    case True
    have "sorted_wrt (\<lambda>a b. \<not> js_less (snd b) (snd a))
           (insert_back (\<lambda>tmp element. comparefn tmp element > 0) x rest)"
      using Cons by simp
    moreover have "\<forall>y \<in> set rest. \<not> js_less (snd y) (snd tmp)" using Cons.prems(2) by simp
    ultimately show ?thesis using True x tmp
      by (auto simp: comparefn_def set_insert_back)
  next
    case False
    have "\<forall>y \<in> set rest. \<not> js_less (snd y) (snd x)"
    proof
      fix y assume y: "y \<in> set rest"
      with Cons.prems(1) obtain k where k: "snd y = Num k" by auto
      from y Cons.prems(2) have "\<not> js_less (snd y) (snd tmp)" by simp
      with k tmp x False show "\<not> js_less (snd y) (snd x)" by simp
    qed
    with False x tmp Cons.prems(2) show ?thesis by (simp add: comparefn_def)
  qed
qed

lemma fold_insert_back_ascending:
  "\<forall>e \<in> set (xs @ acc). \<exists>n. snd e = Num n \<Longrightarrow>
   sorted_wrt (\<lambda>a b. \<not> js_less (snd b) (snd a)) acc \<Longrightarrow>
   sorted_wrt (\<lambda>a b. \<not> js_less (snd b) (snd a))
     (fold (insert_back (\<lambda>tmp element. comparefn tmp element > 0)) xs acc)"
proof (induction xs arbitrary: acc)
  case Nil
  then show ?case by simp
next
  case (Cons x xs)
  have "sorted_wrt (\<lambda>a b. \<not> js_less (snd b) (snd a))
          (insert_back (\<lambda>tmp element. comparefn tmp element > 0) x acc)"
    using Cons.prems by (intro insert_back_ascending) auto
  moreover have "\<forall>e \<in> set (xs @ insert_back (\<lambda>tmp element. comparefn tmp element > 0) x acc).
      \<exists>n. snd e = Num n"
    using Cons.prems(1) by (auto simp: set_insert_back)
  ultimately show ?case using Cons.IH by simp
qed

lemma sort_testing_gt_descending:
  assumes "\<forall>e \<in> set xs. \<exists>n. snd e = Num n"
  shows "sorted_wrt (\<lambda>a b. \<not> js_less (snd a) (snd b)) (sort_testing_gt comparefn xs)"
  using fold_insert_back_ascending [of xs "[]"] assms
  by (simp add: sort_testing_gt_def insertion_sort_def sorted_wrt_rev)

subsection \<open>The three loops of \<^verbatim>\<open>process\<close>\<close>

lemma js_get_own: "map_of obj key = Some n \<Longrightarrow> js_get obj key = Num n"
  by (simp add: js_get_def)

lemma useCache_eq:
  "useCache c tags rs tp tmp =
     (rs @ map (\<lambda>t. (t, js_get c t)) (filter (\<lambda>t. truthy (js_get c t)) tags),
      tp @ filter (\<lambda>t. \<not> truthy (js_get c t)) tags,
      fold (\<lambda>t. AList.update t 0) (filter (\<lambda>t. \<not> truthy (js_get c t)) tags) tmp)"
  by (induction tags arbitrary: rs tp tmp) simp_all

lemma useCache_keys:
  "fst ` set (fold (\<lambda>t. AList.update t (0::nat)) ts tmp) = set ts \<union> fst ` set tmp"
  by (induction ts arbitrary: tmp) (auto simp: dom_update)

lemma cacheResults_entries:
  "snd (cacheResults ts tmp c rs) = rs @ map (\<lambda>t. (t, js_get tmp t)) ts"
  by (induction ts arbitrary: c rs) (auto simp: js_get_own split: option.splits)

lemma cacheResults_cache:
  "map_of (fst (cacheResults ts tmp c rs)) t = (if t \<in> set ts then map_of tmp t else map_of c t)"
  by (induction ts arbitrary: c rs)
     (auto simp: update_conv' delete_conv' split: option.splits)

lemma map_of_fold_update:
  "map_of (fold (\<lambda>t. AList.update t (0::nat)) ts tmp) t
     = (if t \<in> set ts then Some 0 else map_of tmp t)"
  by (induction ts arbitrary: tmp) (auto simp: update_conv')

lemma process_unfold:
  assumes "data this = Some objs"
    and "processAll (filter (\<lambda>t. \<not> truthy (js_get (cache this) t)) tags) objs
           (fold (\<lambda>t. AList.update t 0)
              (filter (\<lambda>t. \<not> truthy (js_get (cache this) t)) tags) [])
         = Inr tmp'"
  shows "process srt this tags =
           (Inr (srt comparefn
                 (map (\<lambda>t. (t, js_get (cache this) t))
                      (filter (\<lambda>t. truthy (js_get (cache this) t)) tags)
                  @ map (\<lambda>t. (t, js_get tmp' t))
                      (filter (\<lambda>t. \<not> truthy (js_get (cache this) t)) tags))),
            this\<lparr>cache := fst (cacheResults
                (filter (\<lambda>t. \<not> truthy (js_get (cache this) t)) tags) tmp' (cache this)
                (map (\<lambda>t. (t, js_get (cache this) t))
                      (filter (\<lambda>t. truthy (js_get (cache this) t)) tags)))\<rparr>)"
  using assms
    cacheResults_entries [of "filter (\<lambda>t. \<not> truthy (js_get (cache this) t)) tags" tmp'
      "cache this"
      "map (\<lambda>t. (t, js_get (cache this) t)) (filter (\<lambda>t. truthy (js_get (cache this) t)) tags)"]
  by (auto simp: process_def useCache_eq split: prod.splits)

text \<open>What \<open>process\<close> returns and stores, in terms of the leaves of the corpus.\<close>

lemma process_result:
  assumes "data this = Some objs" and "traversable objs" and "distinct tags"
  shows "\<exists>c'. process srt this tags =
           (Inr (srt comparefn
                 (map (\<lambda>t. (t, js_get (cache this) t))
                      (filter (\<lambda>t. truthy (js_get (cache this) t)) tags)
                  @ map (\<lambda>t. (t, Num (length (filter (sublist t)
                                               (concat (map documentLeaves objs))))))
                      (filter (\<lambda>t. \<not> truthy (js_get (cache this) t)) tags))),
            this\<lparr>cache := c'\<rparr>)
         \<and> (\<forall>t. map_of c' t =
               (if t \<in> set tags \<and> \<not> truthy (js_get (cache this) t)
                then Some (length (filter (sublist t) (concat (map documentLeaves objs))))
                else map_of (cache this) t))"
proof -
  let ?tp = "filter (\<lambda>t. \<not> truthy (js_get (cache this) t)) tags"
  let ?tmp = "fold (\<lambda>t. AList.update t (0::nat)) ?tp []"
  let ?n = "\<lambda>t. length (filter (sublist t) (concat (map documentLeaves objs)))"
  from assms(2) obtain tmp' where t: "processAll ?tp objs ?tmp = Inr tmp'"
    using traversal_succeeds(5) [of objs ?tp] by (auto simp: traversable_def)
  have d: "distinct ?tp" using assms(3) by simp
  have cnt: "map_of tmp' t = Some (?n t)" if "t \<in> set ?tp" for t
  proof -
    have "map_of ?tmp t = Some 0" using that by (simp add: map_of_fold_update)
    from traversal_counts(5) [OF t _ this] d that show ?thesis by simp
  qed
  have out: "map_of tmp' t = None" if "t \<notin> set ?tp" for t
  proof -
    have "map fst tmp' = map fst ?tmp" using t by (rule keys_kept(5))
    then have "fst ` set tmp' = fst ` set ?tmp" by (metis list.set_map)
    with that have "t \<notin> fst ` set tmp'" by (simp add: useCache_keys)
    then show ?thesis by (simp add: map_of_eq_None_iff)
  qed
  have eq: "map (\<lambda>t. (t, js_get tmp' t)) ?tp = map (\<lambda>t. (t, Num (?n t))) ?tp"
    using cnt by (auto simp: js_get_own)
  define c' where "c' = fst (cacheResults ?tp tmp' (cache this)
      (map (\<lambda>t. (t, js_get (cache this) t)) (filter (\<lambda>t. truthy (js_get (cache this) t)) tags)))"
  have ch: "map_of c' t =
      (if t \<in> set tags \<and> \<not> truthy (js_get (cache this) t) then Some (?n t)
       else map_of (cache this) t)" for t
    using cnt [of t] by (auto simp: c'_def cacheResults_cache)
  have "process srt this tags =
           (Inr (srt comparefn
                 (map (\<lambda>t. (t, js_get (cache this) t))
                      (filter (\<lambda>t. truthy (js_get (cache this) t)) tags)
                  @ map (\<lambda>t. (t, Num (?n t))) ?tp)),
            this\<lparr>cache := c'\<rparr>)"
    using process_unfold [OF assms(1) t, of srt] unfolding eq c'_def .
  with ch show ?thesis by blast
qed

lemma truthy_not_inherited:
  "truthy (js_get c t) \<Longrightarrow> t \<notin> set object_prototype \<Longrightarrow> \<exists>n. js_get c t = Num n \<and> n \<noteq> 0"
  by (auto simp: js_get_def split: option.splits)

lemma entries_numeric:
  assumes "set tags \<inter> set object_prototype = {}"
  shows "\<forall>e \<in> set (map (\<lambda>t. (t, js_get c t)) (filter (\<lambda>t. truthy (js_get c t)) tags)
                     @ map (\<lambda>t. (t, Num (f t))) (filter (\<lambda>t. \<not> truthy (js_get c t)) tags)).
           \<exists>n. snd e = Num n"
proof
  fix e
  assume "e \<in> set (map (\<lambda>t. (t, js_get c t)) (filter (\<lambda>t. truthy (js_get c t)) tags)
                     @ map (\<lambda>t. (t, Num (f t))) (filter (\<lambda>t. \<not> truthy (js_get c t)) tags))"
  then consider t where "t \<in> set tags" and "truthy (js_get c t)" and "e = (t, js_get c t)"
    | t where "e = (t, Num (f t))"
    by auto
  then show "\<exists>n. snd e = Num n"
  proof cases
    case 1
    from 1(1) assms have "t \<notin> set object_prototype" by auto
    from truthy_not_inherited [OF 1(2) this] 1(3) show ?thesis by auto
  next
    case 2
    then show ?thesis by simp
  qed
qed

text \<open>
  One entry per tag, each with a number, provided that the traversal does not throw and
  that no tag names a member of \<^verbatim>\<open>Object.prototype\<close>.
\<close>

lemma process_entries:
  assumes "data this = Some objs" and "traversable objs" and "distinct tags"
    and "permuting srt" and "set tags \<inter> set object_prototype = {}"
  shows "\<exists>res. fst (process srt this tags) = Inr res \<and> length res = length tags
           \<and> mset (map fst res) = mset tags \<and> (\<forall>e \<in> set res. \<exists>n. snd e = Num n)"
proof -
  define raw where "raw =
      map (\<lambda>t. (t, js_get (cache this) t)) (filter (\<lambda>t. truthy (js_get (cache this) t)) tags)
      @ map (\<lambda>t. (t, Num (length (filter (sublist t) (concat (map documentLeaves objs))))))
          (filter (\<lambda>t. \<not> truthy (js_get (cache this) t)) tags)"
  from process_result [OF assms(1-3), of srt] obtain c' where
    "process srt this tags = (Inr (srt comparefn raw), this\<lparr>cache := c'\<rparr>)"
    unfolding raw_def by blast
  then have r: "fst (process srt this tags) = Inr (srt comparefn raw)" by simp
  have m: "mset (srt comparefn raw) = mset raw" using assms(4) by (simp add: permuting_def)
  have k: "mset (map fst raw) = mset tags" by (simp add: raw_def comp_def)
  have n: "\<forall>e \<in> set raw. \<exists>n. snd e = Num n"
    unfolding raw_def using assms(5) by (rule entries_numeric)
  have "mset (map fst (srt comparefn raw)) = image_mset fst (mset (srt comparefn raw))"
    by simp
  also have "\<dots> = image_mset fst (mset raw)" by (simp only: m)
  also have "\<dots> = mset tags" using k by simp
  finally have 1: "mset (map fst (srt comparefn raw)) = mset tags" .
  have "length (srt comparefn raw) = size (mset (srt comparefn raw))" by simp
  also have "\<dots> = size (mset raw)" by (simp only: m)
  also have "\<dots> = length raw" by (rule size_mset)
  also have "\<dots> = length tags" by (simp add: raw_def sum_length_filter_compl)
  finally have 2: "length (srt comparefn raw) = length tags" .
  have "set (srt comparefn raw) = set raw" using assms(4) by (rule permuting_set)
  with n have 3: "\<forall>e \<in> set (srt comparefn raw). \<exists>n. snd e = Num n" by simp
  from r 1 2 3 show ?thesis by blast
qed


text \<open>A call whose tags all have a truthy cache read changes nothing and tests no leaf.\<close>

lemma process_all_cached:
  assumes "data this = Some objs" and "traversable objs"
    and "\<forall>t \<in> set tags. truthy (js_get (cache this) t)"
  shows "process srt this tags
           = (Inr (srt comparefn (map (\<lambda>t. (t, js_get (cache this) t)) tags)), this)"
    and "useCache (cache this) tags [] [] []
           = (map (\<lambda>t. (t, js_get (cache this) t)) tags, [], [])"
proof -
  have f: "filter (\<lambda>t. \<not> truthy (js_get (cache this) t)) tags = []"
    and g: "filter (\<lambda>t. truthy (js_get (cache this) t)) tags = tags"
    using assms(3) by (simp_all add: filter_empty_conv)
  show "useCache (cache this) tags [] [] []
           = (map (\<lambda>t. (t, js_get (cache this) t)) tags, [], [])"
    by (simp add: useCache_eq f g)
  have "processAll [] objs [] = Inr []" using assms(2) by (simp add: traversable_def)
  then show "process srt this tags
           = (Inr (srt comparefn (map (\<lambda>t. (t, js_get (cache this) t)) tags)), this)"
    using assms(1) by (simp add: process_def useCache_eq f g)
qed

text \<open>A tag stored with count 0 is queued again by the first loop.\<close>

lemma zero_is_not_a_hit:
  "map_of c t = Some 0 \<Longrightarrow> t \<in> set tags \<Longrightarrow> t \<in> set (fst (snd (useCache c tags [] [] [])))"
  by (simp add: useCache_eq js_get_own)

text \<open>With the sort that tests \<^verbatim>\<open>> 0\<close>, those entries come back in descending order.\<close>

lemma process_descending:
  assumes "data this = Some objs" and "traversable objs" and "distinct tags"
    and "set tags \<inter> set object_prototype = {}"
  shows "\<exists>res. fst (process sort_testing_gt this tags) = Inr res
           \<and> sorted_wrt (\<lambda>a b. \<not> js_less (snd a) (snd b)) res"
proof -
  define raw where "raw =
      map (\<lambda>t. (t, js_get (cache this) t)) (filter (\<lambda>t. truthy (js_get (cache this) t)) tags)
      @ map (\<lambda>t. (t, Num (length (filter (sublist t) (concat (map documentLeaves objs))))))
          (filter (\<lambda>t. \<not> truthy (js_get (cache this) t)) tags)"
  from process_result [OF assms(1-3), of sort_testing_gt] obtain c' where
    "process sort_testing_gt this tags
       = (Inr (sort_testing_gt comparefn raw), this\<lparr>cache := c'\<rparr>)"
    unfolding raw_def by blast
  then have r: "fst (process sort_testing_gt this tags) = Inr (sort_testing_gt comparefn raw)"
    by simp
  have n: "\<forall>e \<in> set raw. \<exists>n. snd e = Num n"
    unfolding raw_def using assms(4) by (rule entries_numeric)
  from sort_testing_gt_descending [OF n] r show ?thesis by simp
qed


subsection \<open>Corpora in parts, and the entry of a tag that is looked up\<close>

lemma testLeaf_no_tags: "testLeaf [] leaf r = r"
  by (simp add: testLeaf_def)

lemma processAll_append:
  "processAll tags (xs @ ys) r =
     (case processAll tags xs r of Inl e \<Rightarrow> Inl e | Inr r' \<Rightarrow> processAll tags ys r')"
  by (induction xs arbitrary: r) (auto split: sum.splits)

lemma traversable_append: "traversable (xs @ ys) = (traversable xs \<and> traversable ys)"
proof -
  have "r = []" if "processAll [] xs [] = Inr r" for r
    using keys_kept(5) [OF that] by simp
  then show ?thesis
    by (auto simp: traversable_def processAll_append split: sum.splits)
qed

lemma traversable_Cons: "traversable (x # xs) = (traversable [x] \<and> traversable xs)"
  using traversable_append [of "[x]" xs] by simp

lemma traversable_string: "traversable [JStr doc]"
  by (induction doc) (simp_all add: traversable_def testLeaf_no_tags)

lemma traversable_chars: "traversable [JArr (map (\<lambda>c. JStr [c]) doc)]"
  by (simp add: traversable_def processElems_chars testLeaf_no_tags)
     (induction doc, simp_all add: testLeaf_no_tags)

lemma leaves_chars: "leavesOfElems (map (\<lambda>c. JStr [c]) doc) = map (\<lambda>c. [c]) doc"
  by (induction doc) simp_all

lemma chars_contribution:
  "length (filter (sublist tag) (map (\<lambda>c. [c]) doc))
     = (case tag of [] \<Rightarrow> length doc | [c] \<Rightarrow> count_list doc c | c # d # rest \<Rightarrow> 0)"
  by (induction doc) (auto simp: sublist_single split: list.splits)

lemma entry_of_uncached:
  assumes "permuting srt" and "distinct tags" and "tag \<in> set tags"
    and "\<not> truthy (js_get c tag)"
  shows "((tag, v) \<in> set (srt comparefn
            (map (\<lambda>t. (t, js_get c t)) (filter (\<lambda>t. truthy (js_get c t)) tags)
             @ map (\<lambda>t. (t, Num (f t))) (filter (\<lambda>t. \<not> truthy (js_get c t)) tags))))
         = (v = Num (f tag))"
  using assms(2-4) by (auto simp: permuting_set [OF assms(1)])

subsection \<open>The engine before it has data\<close>

lemma setData_not_array: "\<not> isArray d \<Longrightarrow> setData this d = (Inl InvalidDataObject, this)"
  by (simp add: setData_def)

lemma process_no_data:
  "data this = None \<Longrightarrow> process srt this tags = (Inl ProcessWithoutData, this)"
  by (simp add: process_def)

lemma never_initialized:
  "\<forall>c \<in> set history. \<forall>d. c = SetData d \<longrightarrow> \<not> isArray d \<Longrightarrow>
   fold (perform srt) history new_TagsFinder = new_TagsFinder"
proof (induction history rule: rev_induct)
  case Nil
  then show ?case by simp
next
  case (snoc c history)
  then have IH: "fold (perform srt) history new_TagsFinder = new_TagsFinder" by simp
  show ?case
  proof (cases c)
    case (SetData d)
    with snoc.prems have "\<not> isArray d" by simp
    with IH SetData show ?thesis by (simp add: setData_not_array)
  next
    case (Process tags)
    with IH show ?thesis by (simp add: process_no_data new_TagsFinder_def)
  qed
qed

subsection \<open>The loader once it is ready\<close>






section \<open>The claims\<close>

subsection \<open>C1: a new corpus and the cache\<close>

text \<open>
  C1, amended. \<^verbatim>\<open>setData\<close> with an array replaces the corpus and leaves the cache as it
  is; it does not reset it. On a corpus whose traversal does not throw, a later
  \<^verbatim>\<open>process\<close> answers every requested tag whose cached count is truthy with exactly the
  count cached before the new corpus was set, whatever the new corpus holds.
\<close>

theorem setData_keeps_cache:
  assumes "permuting srt" and "traversable objs"
  shows "setData this (JArr objs) = (Inr (), this\<lparr>data := Some objs\<rparr>)
       \<and> cache (this\<lparr>data := Some objs\<rparr>) = cache this
       \<and> (\<exists>res. fst (process srt (this\<lparr>data := Some objs\<rparr>) tags) = Inr res
            \<and> (\<forall>tag \<in> set tags. truthy (js_get (cache this) tag) \<longrightarrow>
                  (\<forall>v. ((tag, v) \<in> set res) = (v = js_get (cache this) tag))))"
proof -
  let ?e = "this\<lparr>data := Some objs\<rparr>"
  let ?tp = "filter (\<lambda>t. \<not> truthy (js_get (cache this) t)) tags"
  from assms(2) obtain tmp' where
    t: "processAll ?tp objs (fold (\<lambda>t. AList.update t 0) ?tp []) = Inr tmp'"
    using traversal_succeeds(5) [of objs ?tp] by (auto simp: traversable_def)
  have "fst (process srt ?e tags) =
           Inr (srt comparefn
                 (map (\<lambda>t. (t, js_get (cache this) t))
                      (filter (\<lambda>t. truthy (js_get (cache this) t)) tags)
                  @ map (\<lambda>t. (t, js_get tmp' t)) ?tp))"
    using process_unfold [of ?e objs tags tmp' srt] t by simp
  moreover have "\<forall>tag \<in> set tags. truthy (js_get (cache this) tag) \<longrightarrow>
      (\<forall>v. ((tag, v) \<in> set (srt comparefn
                 (map (\<lambda>t. (t, js_get (cache this) t))
                      (filter (\<lambda>t. truthy (js_get (cache this) t)) tags)
                  @ map (\<lambda>t. (t, js_get tmp' t)) ?tp))) = (v = js_get (cache this) tag))"
    by (auto simp: permuting_set [OF assms(1)])
  ultimately show ?thesis by (simp add: setData_def)
qed

text \<open>
  The engine has answered \<^verbatim>\<open>x\<close> on the small corpus (count 2) and is then given the
  empty corpus.
\<close>

theorem setData_keeps_cache_witness:
  "permuting sort_testing_gt \<and> traversable []
   \<and> js_get (cache (snd (process sort_testing_gt small_engine [''x'']))) ''x'' = Num 2
   \<and> setData (snd (process sort_testing_gt small_engine [''x''])) (JArr [])
       = (Inr (), (snd (process sort_testing_gt small_engine [''x'']))\<lparr>data := Some []\<rparr>)
   \<and> (\<exists>res. fst (process sort_testing_gt
                    ((snd (process sort_testing_gt small_engine [''x'']))\<lparr>data := Some []\<rparr>)
                    [''x'']) = Inr res
          \<and> (\<forall>v. ((''x'', v) \<in> set res) = (v = Num 2)))"
proof -
  have p: "permuting sort_testing_gt" by (rule permuting_sort_testing_gt)
  have t: "traversable []" by (simp add: traversable_def)
  have c: "js_get (cache (snd (process sort_testing_gt small_engine [''x'']))) ''x'' = Num 2"
    by (simp add: small_engine_def small_corpus_def eval_simps)
  from setData_keeps_cache [OF p t, of "snd (process sort_testing_gt small_engine [''x''])"
      "[''x'']"] c p t
  show ?thesis by simp
qed

text \<open>
  C1 as stated fails: after the new, empty corpus is set, \<^verbatim>\<open>x\<close> is still answered with
  the count 2 of the old corpus, where an engine that starts on the empty corpus answers 0.
\<close>

theorem stale_count_counterexample:
  "fst (process sort_testing_gt
         (snd (setData (snd (process sort_testing_gt small_engine [''x''])) (JArr [])))
         [''x''])
     = Inr [(''x'', Num 2)]
   \<and> fst (process sort_testing_gt (snd (setData new_TagsFinder (JArr []))) [''x''])
     = Inr [(''x'', Num 0)]"
  by (simp add: small_engine_def small_corpus_def eval_simps sort_testing_gt_def
      insertion_sort_def)

subsection \<open>C2: the safety timer\<close>

text \<open>
  C2, amended. When the safety timer fires, the loader emits \<^verbatim>\<open>fatal\<close> once for it and
  nothing else changes: the timer does not fire again, a file that is processed after
  the deadline is still appended to the corpus and counted, and \<^verbatim>\<open>ready\<close> is emitted with
  the corpus when the counter reaches the total.
\<close>

theorem timeout_only_emits_fatal:
  assumes "i \<in> set (armed self)"
  shows "let late = self\<lparr>armed := removeAll i (armed self)\<rparr> in
         step (TimerFires i) self = ([Fatal TimeoutReached], [], None, late)
       \<and> step (TimerFires i) late = ([], [], None, late)
       \<and> fileCache (snd (fileprocessed True object late)) = fileCache self @ [object]
       \<and> filesProcessedCount (snd (fileprocessed isSuccess object late))
           = filesProcessedCount self + 1
       \<and> fst (fileprocessed True object late)
           = (if filesToProcessCount self = filesProcessedCount self + 1
              then [Ready (fileCache self @ [object])] else [])"
  using assms by (simp add: loader_simps split: option.splits)

theorem timeout_only_emits_fatal_witness:
  "0 \<in> set (armed waiting_loader)
   \<and> step (TimerFires 0) waiting_loader
       = ([Fatal TimeoutReached], [], None, waiting_loader\<lparr>armed := []\<rparr>)
   \<and> step (TimerFires 0) (waiting_loader\<lparr>armed := []\<rparr>)
       = ([], [], None, waiting_loader\<lparr>armed := []\<rparr>)
   \<and> fst (fileprocessed True (JNum 7) (waiting_loader\<lparr>armed := []\<rparr>)) = [Ready [JNum 7]]"
proof -
  have h: "0 \<in> set (armed waiting_loader)" by (simp add: waiting_loader_def)
  from timeout_only_emits_fatal [OF h, of "JNum 7" True] h
  show ?thesis by (simp add: waiting_loader_def Let_def)
qed

text \<open>
  C2 as stated fails: one file is listed, the timer fires, then the file arrives. The
  loader emits \<^verbatim>\<open>fatal\<close> and after it \<^verbatim>\<open>ready\<close> with the file's document.
\<close>

theorem timeout_then_ready_counterexample:
  "run [LoadFiles, ReaddirDone None (Some [''a.json'']), TimerFires 0,
        ReadFileDone ''a.json'' (Parsed (JNum 7))] new_DataLoader
   = ([Fatal TimeoutReached, Ready [JNum 7]], [Readdir, ReadFile ''a.json''],
      \<lparr>fileCache = [JNum 7], cacheReady = True, filesToProcessCount = 1,
       filesProcessedCount = 1, safety = Some 0, armed = [], nextHandle = 1\<rparr>)"
  by (simp add: loader_simps)

subsection \<open>C3: a count of 0 in the cache\<close>

text \<open>
  C3 at the tag \<^verbatim>\<open>y\<close>, which the small corpus holds nowhere. The first call returns 0
  and stores 0 in the cache; the cache read is then \<open>Num 0\<close>, which is not truthy, so
  the first loop of the next call puts \<^verbatim>\<open>y\<close> into \<open>tagsToProcess\<close> again and the corpus is
  searched for it once more, with the same result. For \<^verbatim>\<open>x\<close>, cached with 2, the next
  call queues nothing.
\<close>

theorem zero_count_looked_up_again:
  "process srt small_engine [''y'']
     = (Inr (srt comparefn [(''y'', Num 0)]), small_engine\<lparr>cache := [(''y'', 0)]\<rparr>)
   \<and> js_get (cache (small_engine\<lparr>cache := [(''y'', 0)]\<rparr>)) ''y'' = Num 0
   \<and> useCache (cache (small_engine\<lparr>cache := [(''y'', 0)]\<rparr>)) [''y''] [] [] []
       = ([], [''y''], [(''y'', 0)])
   \<and> process srt (small_engine\<lparr>cache := [(''y'', 0)]\<rparr>) [''y'']
       = (Inr (srt comparefn [(''y'', Num 0)]), small_engine\<lparr>cache := [(''y'', 0)]\<rparr>)
   \<and> useCache (cache (snd (process srt small_engine [''x'']))) [''x''] [] [] []
       = ([(''x'', Num 2)], [], [])"
  by (simp add: small_engine_def small_corpus_def eval_simps)

subsection \<open>C4: the order of the results\<close>

text \<open>
  C4 at the tags \<^verbatim>\<open>y\<close>, \<^verbatim>\<open>z\<close>, \<^verbatim>\<open>x\<close> on the small corpus, with three distinct counts
  0, 1 and 2. The comparison function is never negative, so under a sort that asks only
  whether it is negative the results come back in the order in which they were pushed:
  ascending here, not descending.
\<close>

theorem boolean_comparator_leaves_order:
  "fst (process sort_testing_lt small_engine [''y'', ''z'', ''x''])
     = Inr [(''y'', Num 0), (''z'', Num 1), (''x'', Num 2)]"
  by (simp add: small_engine_def small_corpus_def eval_simps sort_testing_lt_comparefn)

subsection \<open>C5: one entry per tag, each with a count\<close>

text \<open>
  C5 at the tag \<^verbatim>\<open>constructor\<close>: the cache read falls through to \<^verbatim>\<open>Object.prototype\<close>
  and is truthy, so the entry returned for the tag holds that inherited member, not a
  number. And on a corpus with an object that has a key \<^verbatim>\<open>hasOwnProperty\<close> the call
  throws and returns no entry at all.
\<close>

theorem inherited_member_returned_as_count:
  "fst (process srt small_engine [''constructor''])
     = Inr (srt comparefn [(''constructor'', Builtin ''constructor'')])
   \<and> fst (process sort_testing_gt small_engine [''constructor''])
     = Inr [(''constructor'', Builtin ''constructor'')]
   \<and> fst (process srt
            (snd (setData new_TagsFinder (JArr [JObj [(''hasOwnProperty'', JNum 1)]])))
            [''x''])
     = Inl NotAFunction"
  by (simp add: small_engine_def small_corpus_def eval_simps sort_testing_gt_def
      insertion_sort_def)

subsection \<open>C6: the example of the specification\<close>

text \<open>
  C6. On the example corpus, \<^verbatim>\<open>process(["red"])\<close> returns \<^verbatim>\<open>red\<close> with 2 (found in
  \<^verbatim>\<open>red apple\<close> inside an array and in \<^verbatim>\<open>redwood\<close> inside a nested object) and
  \<^verbatim>\<open>process(["blue"])\<close> returns \<^verbatim>\<open>blue\<close> with 1, on a fresh engine and after the other
  query alike, under every sort.
\<close>

theorem spec_example_counts:
  assumes "permuting srt"
  shows "fst (process srt example_engine [''red'']) = Inr [(''red'', Num 2)]
       \<and> fst (process srt example_engine [''blue'']) = Inr [(''blue'', Num 1)]
       \<and> fst (process srt (snd (process srt example_engine [''red''])) [''blue''])
           = Inr [(''blue'', Num 1)]"
  by (simp add: example_engine_def example_corpus_def eval_simps permuting_single [OF assms])

theorem spec_example_counts_witness:
  "permuting sort_testing_lt
   \<and> fst (process sort_testing_lt example_engine [''red'']) = Inr [(''red'', Num 2)]
   \<and> fst (process sort_testing_lt example_engine [''blue'']) = Inr [(''blue'', Num 1)]
   \<and> fst (process sort_testing_lt (snd (process sort_testing_lt example_engine [''red'']))
            [''blue''])
           = Inr [(''blue'', Num 1)]"
  using spec_example_counts [OF permuting_sort_testing_lt] permuting_sort_testing_lt by simp

subsection \<open>C7: presence per leaf\<close>

text \<open>
  C7, amended. On a corpus whose traversal does not throw, and for tags free of
  duplicates, the count that \<^verbatim>\<open>process\<close> returns for a tag it looks up is the number of
  string leaves of the corpus that contain the tag: every string found inside a document,
  as a property value or an array element at any depth, adds exactly 1 when the tag
  occurs in it, however often it occurs there, and nothing otherwise. A document that is
  itself a string is not such a leaf: its characters are (\<open>documentLeaves\<close>).
\<close>

theorem count_is_leaves_containing_tag:
  assumes "permuting srt" and "data this = Some objs" and "traversable objs"
    and "distinct tags" and "tag \<in> set tags" and "\<not> truthy (js_get (cache this) tag)"
  shows "\<exists>res. fst (process srt this tags) = Inr res
           \<and> (\<forall>v. ((tag, v) \<in> set res)
                  = (v = Num (length (filter (sublist tag)
                                       (concat (map documentLeaves objs))))))"
proof -
  from process_result [OF assms(2-4), of srt] obtain c' where
    "process srt this tags =
           (Inr (srt comparefn
                 (map (\<lambda>t. (t, js_get (cache this) t))
                      (filter (\<lambda>t. truthy (js_get (cache this) t)) tags)
                  @ map (\<lambda>t. (t, Num (length (filter (sublist t)
                                               (concat (map documentLeaves objs))))))
                      (filter (\<lambda>t. \<not> truthy (js_get (cache this) t)) tags))),
            this\<lparr>cache := c'\<rparr>)" by blast
  then show ?thesis
    using entry_of_uncached [OF assms(1,4,5,6)] by simp
qed

text \<open>
  The leaves \<^verbatim>\<open>banana\<close>, \<^verbatim>\<open>an\<close> and \<^verbatim>\<open>can\<close> contain \<^verbatim>\<open>an\<close>; \<^verbatim>\<open>banana\<close> contains it twice
  and counts once.
\<close>

theorem count_is_leaves_containing_tag_witness:
  "documentLeaves (leafy_corpus ! 0) = [''banana'', ''an'', ''x'']
   \<and> documentLeaves (leafy_corpus ! 1) = [''can'']
   \<and> (\<exists>res. fst (process sort_testing_gt (new_TagsFinder\<lparr>data := Some leafy_corpus\<rparr>)
                    [''an'', ''x'']) = Inr res
        \<and> (\<forall>v. ((''an'', v) \<in> set res) = (v = Num 3)))"
proof -
  have p: "permuting sort_testing_gt" by (rule permuting_sort_testing_gt)
  have d: "data (new_TagsFinder\<lparr>data := Some leafy_corpus\<rparr>) = Some leafy_corpus" by simp
  have t: "traversable leafy_corpus"
    by (simp add: traversable_def leafy_corpus_def testLeaf_no_tags)
  have di: "distinct [''an'', ''x'']" by simp
  have m: "''an'' \<in> set [''an'', ''x'']" by simp
  have u: "\<not> truthy (js_get (cache (new_TagsFinder\<lparr>data := Some leafy_corpus\<rparr>)) ''an'')"
    by (simp add: new_TagsFinder_def js_get_def object_prototype_def)
  have l0: "documentLeaves (leafy_corpus ! 0) = [''banana'', ''an'', ''x'']"
    and l1: "documentLeaves (leafy_corpus ! 1) = [''can'']"
    by (simp_all add: leafy_corpus_def)
  have n: "length (filter (sublist ''an'') (concat (map documentLeaves leafy_corpus))) = 3"
    by (simp add: leafy_corpus_def sublist_Cons_right)
  from count_is_leaves_containing_tag [OF p d t di m u] n l0 l1 show ?thesis by simp
qed

text \<open>
  C7 as stated fails where the document is itself a string: the document
  \<^verbatim>\<open>"red apple"\<close> contains \<^verbatim>\<open>red\<close> and adds nothing to its count, where the same string
  inside an array adds 1.
\<close>

theorem string_document_not_a_leaf_counterexample:
  "fst (process sort_testing_gt (snd (setData new_TagsFinder (JArr [JStr ''red apple'']))) [''red''])
     = Inr [(''red'', Num 0)]
   \<and> indexOf ''red apple'' ''red'' = 0
   \<and> fst (process sort_testing_gt (snd (setData new_TagsFinder (JArr [JArr [JStr ''red apple'']])))
            [''red''])
     = Inr [(''red'', Num 1)]"
  by (simp add: eval_simps sort_testing_gt_def insertion_sort_def)

subsection \<open>C8: the two precondition errors\<close>

text \<open>
  C8. As long as no \<^verbatim>\<open>setData\<close> with an array has been made, \<^verbatim>\<open>process\<close> throws its
  error; \<^verbatim>\<open>setData\<close> with anything but an array throws its error on every engine; both
  leave the engine as it was, and a \<^verbatim>\<open>setData\<close> with an array succeeds afterwards.
\<close>

theorem precondition_errors:
  assumes "\<forall>c \<in> set history. \<forall>a. c = SetData a \<longrightarrow> \<not> isArray a"
    and "\<not> isArray d"
  shows "process srt (fold (perform srt) history new_TagsFinder) tags
           = (Inl ProcessWithoutData, fold (perform srt) history new_TagsFinder)
       \<and> setData this d = (Inl InvalidDataObject, this)
       \<and> setData (snd (setData this d)) (JArr objs) = (Inr (), this\<lparr>data := Some objs\<rparr>)
       \<and> setData (snd (process srt (fold (perform srt) history new_TagsFinder) tags))
           (JArr objs)
           = (Inr (), new_TagsFinder\<lparr>data := Some objs\<rparr>)"
proof -
  have "fold (perform srt) history new_TagsFinder = new_TagsFinder"
    using assms(1) by (rule never_initialized)
  then show ?thesis using assms(2)
    by (simp add: setData_not_array) (simp add: process_no_data new_TagsFinder_def setData_def)
qed

text \<open>
  The history is a \<^verbatim>\<open>process\<close> call and two \<^verbatim>\<open>setData\<close> calls without an array; the
  argument that is no array is a string.
\<close>

theorem precondition_errors_witness:
  "process sort_testing_gt
       (fold (perform sort_testing_gt) [Process [''a''], SetData JNull, SetData (JObj [])]
          new_TagsFinder) [''a'']
       = (Inl ProcessWithoutData, new_TagsFinder)
   \<and> setData example_engine (JStr ''x'') = (Inl InvalidDataObject, example_engine)
   \<and> setData (snd (setData example_engine (JStr ''x''))) (JArr [])
       = (Inr (), example_engine\<lparr>data := Some []\<rparr>)"
proof -
  have h1: "\<forall>c \<in> set [Process [''a''], SetData JNull, SetData (JObj [])].
       \<forall>a. c = SetData a \<longrightarrow> \<not> isArray a" by simp
  have h2: "\<not> isArray (JStr ''x'')" by simp
  have n: "fold (perform sort_testing_gt) [Process [''a''], SetData JNull, SetData (JObj [])]
          new_TagsFinder = new_TagsFinder"
    by (simp add: process_def setData_def new_TagsFinder_def)
  note p = precondition_errors [OF h1 h2, of sort_testing_gt "[''a'']" example_engine "[]",
      unfolded n]
  from p show ?thesis unfolding n by blast
qed

subsection \<open>C9: loading again after \<^verbatim>\<open>ready\<close>\<close>




subsection \<open>C10: a document that is a string\<close>

text \<open>
  C10. For a corpus entry that is itself a string, \<^verbatim>\<open>process\<close> returns what it returns
  when the entry is replaced by the array of the string's one-character strings. Against
  the corpus without the entry, the count of a tag that is looked up grows by 0 when the
  tag has more than one character, also when the string contains the tag, and by the
  number of positions of the string that hold the character when the tag is one
  character. (For the empty tag it grows by the length of the string.) The corpus is
  one whose traversal does not throw and the tags are free of duplicates.
\<close>

theorem string_document_read_by_character:
  assumes "permuting srt" and "traversable (pre @ post)"
    and "distinct tags" and "tag \<in> set tags" and "\<not> truthy (js_get (cache this) tag)"
  shows "\<exists>n res res'.
           fst (process srt (this\<lparr>data := Some (pre @ post)\<rparr>) tags) = Inr res
         \<and> (\<forall>v. ((tag, v) \<in> set res) = (v = Num n))
         \<and> fst (process srt (this\<lparr>data := Some (pre @ JStr doc # post)\<rparr>) tags) = Inr res'
         \<and> fst (process srt
                  (this\<lparr>data := Some (pre @ JArr (map (\<lambda>c. JStr [c]) doc) # post)\<rparr>) tags)
             = Inr res'
         \<and> (\<forall>v. ((tag, v) \<in> set res')
                = (v = Num (n + (case tag of [] \<Rightarrow> length doc | [c] \<Rightarrow> count_list doc c
                                 | c # d # rest \<Rightarrow> 0))))"
proof -
  let ?c = "cache this"
  let ?raw = "\<lambda>objs. srt comparefn
                 (map (\<lambda>t. (t, js_get ?c t)) (filter (\<lambda>t. truthy (js_get ?c t)) tags)
                  @ map (\<lambda>t. (t, Num (length (filter (sublist t)
                                               (concat (map documentLeaves objs))))))
                      (filter (\<lambda>t. \<not> truthy (js_get ?c t)) tags))"
  have tp: "traversable pre" and tq: "traversable post"
    using assms(2) by (simp_all add: traversable_append)
  have t1: "traversable (pre @ JStr doc # post)"
    using tp tq traversable_string [of doc]
    by (simp add: traversable_append traversable_Cons [of "JStr doc" post])
  have t2: "traversable (pre @ JArr (map (\<lambda>c. JStr [c]) doc) # post)"
    using tp tq traversable_chars [of doc]
    by (simp add: traversable_append traversable_Cons [of "JArr (map (\<lambda>c. JStr [c]) doc)" post])
  have r: "fst (process srt (this\<lparr>data := Some objs\<rparr>) tags) = Inr (?raw objs)"
    if "traversable objs" for objs
    using process_result [of "this\<lparr>data := Some objs\<rparr>" objs tags srt] that assms(3)
    by auto
  have same: "?raw (pre @ JArr (map (\<lambda>c. JStr [c]) doc) # post) = ?raw (pre @ JStr doc # post)"
    by (simp add: leaves_chars)
  have e: "((tag, v) \<in> set (?raw objs))
             = (v = Num (length (filter (sublist tag) (concat (map documentLeaves objs)))))"
    for v objs
    by (rule entry_of_uncached [OF assms(1,3,4,5)])
  have k: "length (filter (sublist tag) (concat (map documentLeaves (pre @ JStr doc # post))))
             = length (filter (sublist tag) (concat (map documentLeaves (pre @ post))))
               + (case tag of [] \<Rightarrow> length doc | [c] \<Rightarrow> count_list doc c
                  | c # d # rest \<Rightarrow> 0)"
    using chars_contribution [of tag doc] by simp
  show ?thesis
    using r [OF assms(2)] r [OF t1] r [OF t2] same e k
    by (intro exI [of _ "length (filter (sublist tag) (concat (map documentLeaves (pre @ post))))"]
          exI [of _ "?raw (pre @ post)"] exI [of _ "?raw (pre @ JStr doc # post)"])
       (simp only: simp_thms)
qed

text \<open>
  The string document \<^verbatim>\<open>"abab"\<close> between two other documents: \<^verbatim>\<open>ab\<close> gets nothing from
  it although it contains \<^verbatim>\<open>ab\<close>, and \<^verbatim>\<open>a\<close> gets 2.
\<close>

theorem string_document_read_by_character_witness:
  "fst (process sort_testing_gt (new_TagsFinder\<lparr>data := Some mixed_corpus\<rparr>) [''ab'', ''a''])
     = Inr [(''a'', Num 4), (''ab'', Num 1)]
   \<and> (\<exists>n res res'.
         fst (process sort_testing_gt
                (new_TagsFinder\<lparr>data := Some ([JObj [(''k'', JStr ''ab'')]] @ [JArr [JStr ''a'']])\<rparr>)
                [''ab'', ''a'']) = Inr res
       \<and> (\<forall>v. ((''ab'', v) \<in> set res) = (v = Num n))
       \<and> fst (process sort_testing_gt
                (new_TagsFinder\<lparr>data := Some ([JObj [(''k'', JStr ''ab'')]] @ JStr ''abab''
                                              # [JArr [JStr ''a'']])\<rparr>)
                [''ab'', ''a'']) = Inr res'
       \<and> (\<forall>v. ((''ab'', v) \<in> set res') = (v = Num (n + 0))))
   \<and> (\<exists>n res res'.
         fst (process sort_testing_gt
                (new_TagsFinder\<lparr>data := Some ([JObj [(''k'', JStr ''ab'')]] @ [JArr [JStr ''a'']])\<rparr>)
                [''ab'', ''a'']) = Inr res
       \<and> (\<forall>v. ((''a'', v) \<in> set res) = (v = Num n))
       \<and> fst (process sort_testing_gt
                (new_TagsFinder\<lparr>data := Some ([JObj [(''k'', JStr ''ab'')]] @ JStr ''abab''
                                              # [JArr [JStr ''a'']])\<rparr>)
                [''ab'', ''a'']) = Inr res'
       \<and> (\<forall>v. ((''a'', v) \<in> set res') = (v = Num (n + 2))))"
proof -
  have p: "permuting sort_testing_gt" by (rule permuting_sort_testing_gt)
  have t: "traversable ([JObj [(''k'', JStr ''ab'')]] @ [JArr [JStr ''a'']])"
    by (simp add: traversable_def testLeaf_no_tags)
  have d: "distinct [''ab'', ''a'']" by simp
  have m1: "''ab'' \<in> set [''ab'', ''a'']" and m2: "''a'' \<in> set [''ab'', ''a'']" by simp_all
  have u1: "\<not> truthy (js_get (cache new_TagsFinder) ''ab'')"
    and u2: "\<not> truthy (js_get (cache new_TagsFinder) ''a'')"
    by (simp_all add: new_TagsFinder_def js_get_def object_prototype_def)
  have v: "fst (process sort_testing_gt (new_TagsFinder\<lparr>data := Some mixed_corpus\<rparr>)
                  [''ab'', ''a''])
             = Inr [(''a'', Num 4), (''ab'', Num 1)]"
    by (simp add: mixed_corpus_def eval_simps sort_testing_gt_def insertion_sort_def
        comparefn_def)
  from string_document_read_by_character [OF p t d m1 u1, of "''abab''"]
  have a: "\<exists>n res res'.
         fst (process sort_testing_gt
                (new_TagsFinder\<lparr>data := Some ([JObj [(''k'', JStr ''ab'')]] @ [JArr [JStr ''a'']])\<rparr>)
                [''ab'', ''a'']) = Inr res
       \<and> (\<forall>v. ((''ab'', v) \<in> set res) = (v = Num n))
       \<and> fst (process sort_testing_gt
                (new_TagsFinder\<lparr>data := Some ([JObj [(''k'', JStr ''ab'')]] @ JStr ''abab''
                                              # [JArr [JStr ''a'']])\<rparr>)
                [''ab'', ''a'']) = Inr res'
       \<and> (\<forall>v. ((''ab'', v) \<in> set res') = (v = Num (n + 0)))"
    by (simp del: append.simps) blast
  from string_document_read_by_character [OF p t d m2 u2, of "''abab''"]
  have b: "\<exists>n res res'.
         fst (process sort_testing_gt
                (new_TagsFinder\<lparr>data := Some ([JObj [(''k'', JStr ''ab'')]] @ [JArr [JStr ''a'']])\<rparr>)
                [''ab'', ''a'']) = Inr res
       \<and> (\<forall>v. ((''a'', v) \<in> set res) = (v = Num n))
       \<and> fst (process sort_testing_gt
                (new_TagsFinder\<lparr>data := Some ([JObj [(''k'', JStr ''ab'')]] @ JStr ''abab''
                                              # [JArr [JStr ''a'']])\<rparr>)
                [''ab'', ''a'']) = Inr res'
       \<and> (\<forall>v. ((''a'', v) \<in> set res') = (v = Num (n + 2)))"
    by (simp del: append.simps) blast
  from v a b show ?thesis by (intro conjI)
qed

end
